theory Spec2Isabelle
  imports Main "HOL-Library.Word"
begin

section \<open>Data model of the packet pipeline (main.go)\<close>

text \<open>
  A payload is a Go \<^verbatim>\<open>[]byte\<close>. The worker copies the packet into a fresh slice
  (\<^verbatim>\<open>make\<close> then \<^verbatim>\<open>copy\<close>); Go's \<^verbatim>\<open>copy\<close> moves
  \<^verbatim>\<open>min(len(dst), len(src))\<close> elements.
\<close>

type_synonym payload = "8 word list"

definition make_bytes :: "nat \<Rightarrow> payload" where
  "make_bytes n = replicate n 0"

definition copy_bytes :: "payload \<Rightarrow> payload \<Rightarrow> payload" where
  "copy_bytes dst src =
     take (min (length dst) (length src)) src @ drop (min (length dst) (length src)) dst"

text \<open>The lines the program prints (the \<^verbatim>\<open>fmt.Println\<close> and \<^verbatim>\<open>fmt.Printf\<close> calls).\<close>

datatype line =
    ErrorReadingRTP
  | ProcessedPerSec "64 word"
  | PacketDroppedBufferFull
  | WorkerPoolFull
  | ErrorWritingFFmpeg

subsection \<open>Channels\<close>

text \<open>
  A Go channel: its buffered values, its capacity and whether it was closed.
  \<^verbatim>\<open>try_send\<close> is the send of a \<^verbatim>\<open>select\<close> that has a \<^verbatim>\<open>default\<close> branch:
  it panics on a closed channel, succeeds while the buffer has room, and otherwise
  falls through to \<^verbatim>\<open>default\<close>. \<^verbatim>\<open>recv\<close> is a receive: buffered values first,
  then the closed signal, and it blocks on an open empty channel.
\<close>

record 'a chan =
  buf :: "'a list"
  cap :: nat
  closed :: bool

definition make_chan :: "nat \<Rightarrow> 'a chan" where
  "make_chan n = \<lparr>buf = [], cap = n, closed = False\<rparr>"

datatype 'a send_result = Sent "'a chan" | SendDefault | SendPanic

definition try_send :: "'a chan \<Rightarrow> 'a \<Rightarrow> 'a send_result" where
  "try_send c v =
     (if closed c then SendPanic
      else if length (buf c) < cap c then Sent (c\<lparr>buf := buf c @ [v]\<rparr>)
      else SendDefault)"

datatype 'a recv_result = Received 'a "'a chan" | RecvClosed | RecvBlocked

definition recv :: "'a chan \<Rightarrow> 'a recv_result" where
  "recv c =
     (case buf c of
        v # vs \<Rightarrow> Received v (c\<lparr>buf := vs\<rparr>)
      | [] \<Rightarrow> if closed c then RecvClosed else RecvBlocked)"

subsection \<open>The sink\<close>

text \<open>
  \<^verbatim>\<open>h.ffmpegStdin\<close> is an \<^verbatim>\<open>io.WriteCloser\<close> outside the program. The model keeps
  the log of the \<^verbatim>\<open>Write\<close> calls it received, each with whether it returned a nil
  error; whether a call succeeds is the sink's business, given as a function of the
  calls so far and the payload.
\<close>

type_synonym sink_log = "(payload \<times> bool) list"
type_synonym sink_behaviour = "sink_log \<Rightarrow> payload \<Rightarrow> bool"

definition accepted :: "payload list \<Rightarrow> sink_log" where
  "accepted ps = map (\<lambda>p. (p, True)) ps"

section \<open>writeToFFmpeg\<close>

record writer =
  batch :: "payload list"
  stdin_calls :: sink_log
  printed :: "line list"
  returned :: bool

definition batchSize :: nat where
  "batchSize = 5"

definition writer_start :: writer where
  "writer_start = \<lparr>batch = [], stdin_calls = [], printed = [], returned = False\<rparr>"

text \<open>
  The \<^verbatim>\<open>for _, payload := range batch\<close> loop of \<^verbatim>\<open>flushBatch\<close>: it stops at the first
  \<^verbatim>\<open>Write\<close> that returns an error. The result is the sink's log and whether every
  write succeeded.
\<close>

fun write_range :: "sink_behaviour \<Rightarrow> payload list \<Rightarrow> sink_log \<Rightarrow> sink_log \<times> bool" where
  "write_range ok [] calls = (calls, True)"
| "write_range ok (p # ps) calls =
     (if ok calls p then write_range ok ps (calls @ [(p, True)])
      else (calls @ [(p, False)], False))"

text \<open>
  \<^verbatim>\<open>flushBatch\<close>: nothing on an empty batch; on a write error it prints and returns
  from the closure, leaving the batch as it is; otherwise \<^verbatim>\<open>batch = batch[:0]\<close>.
\<close>

definition flushBatch :: "sink_behaviour \<Rightarrow> writer \<Rightarrow> writer" where
  "flushBatch ok w =
     (if length (batch w) = 0 then w
      else (let (calls, all_ok) = write_range ok (batch w) (stdin_calls w) in
            if all_ok then w\<lparr>batch := [], stdin_calls := calls\<rparr>
            else w\<lparr>stdin_calls := calls, printed := printed w @ [ErrorWritingFFmpeg]\<rparr>))"

text \<open>
  What one pass through the writer's \<^verbatim>\<open>select\<close> receives: a payload from
  \<^verbatim>\<open>h.processedChan\<close>, the closed signal of that channel, or a tick.
\<close>

datatype wevent = Payload payload | QueueClosed | Tick

definition writer_select :: "sink_behaviour \<Rightarrow> writer \<Rightarrow> wevent \<Rightarrow> writer" where
  "writer_select ok w ev =
     (case ev of
        Payload p \<Rightarrow>
          (let w' = w\<lparr>batch := batch w @ [p]\<rparr> in
           if length (batch w') \<ge> batchSize then flushBatch ok w' else w')
      | QueueClosed \<Rightarrow> (flushBatch ok w)\<lparr>returned := True\<rparr>
      | Tick \<Rightarrow> flushBatch ok w)"

text \<open>The \<^verbatim>\<open>for\<close> loop: it runs until the closed signal makes the function return.\<close>

fun writeToFFmpeg :: "sink_behaviour \<Rightarrow> writer \<Rightarrow> wevent list \<Rightarrow> writer" where
  "writeToFFmpeg ok w [] = w"
| "writeToFFmpeg ok w (ev # evs) =
     (if returned w then w else writeToFFmpeg ok (writer_select ok w ev) evs)"

text \<open>The payloads a run of the loop drains from the queue before it returns.\<close>

fun drained :: "wevent list \<Rightarrow> payload list" where
  "drained [] = []"
| "drained (Payload p # evs) = p # drained evs"
| "drained (Tick # evs) = drained evs"
| "drained (QueueClosed # evs) = []"

section \<open>The writer on a clock\<close>











section \<open>processRTPPackets and the pipeline\<close>

text \<open>
  The fields of \<^verbatim>\<open>streamHandler\<close> that never change after \<^verbatim>\<open>newStreamHandler\<close>.
  Its channels and the sink are part of the running state below; \<^verbatim>\<open>rtpChan\<close> is never
  used by the program.
\<close>

record streamHandler =
  workerCount :: int
  metricsEnabled :: bool

definition newStreamHandler :: "int \<Rightarrow> streamHandler" where
  "newStreamHandler workers = \<lparr>workerCount = workers, metricsEnabled = True\<rparr>"

text \<open>
  Where a worker goroutine started by the dispatch loop stands. \<^verbatim>\<open>Transform\<close>: about to
  copy the packet and run the \<^verbatim>\<open>select\<close> on \<^verbatim>\<open>h.processedChan\<close>. After a successful
  send, with metrics enabled, one statement at a time, none of them synchronised with
  the other workers: \<^verbatim>\<open>Count\<close>, about to read \<^verbatim>\<open>packetCounter\<close> for
  \<^verbatim>\<open>packetCounter++\<close>; \<^verbatim>\<open>CountStore r\<close>, about to store \<^verbatim>\<open>r + 1\<close>, \<^verbatim>\<open>r\<close> being the
  value it read; \<^verbatim>\<open>Check\<close>, about to test \<^verbatim>\<open>time.Since(lastMetricTime)\<close>;
  \<^verbatim>\<open>Print\<close>, about to print the counter; \<^verbatim>\<open>Reset\<close>, about to set it to 0;
  \<^verbatim>\<open>Stamp\<close>, about to set \<^verbatim>\<open>lastMetricTime\<close>. \<^verbatim>\<open>Release\<close>: about to run the
  deferred \<^verbatim>\<open><-workers\<close>.
\<close>

datatype goroutine =
    Transform payload
  | Count
  | CountStore "64 word"
  | Check
  | Print
  | Reset
  | Stamp
  | Release

record pipeline =
  processedChan :: "payload chan"
  done_closed :: bool
  workers :: "unit chan"
  goroutines :: "goroutine list"
  reading :: bool
  packetCounter :: "64 word"
  lastMetricTime :: int
  stdout :: "line list"
  ffmpeg :: writer
  panicked :: bool

text \<open>
  The state when \<^verbatim>\<open>processRTPPackets\<close> and \<^verbatim>\<open>writeToFFmpeg\<close> have been started:
  \<^verbatim>\<open>processedChan\<close> has room for 100 payloads, \<^verbatim>\<open>workers\<close> for \<^verbatim>\<open>workerCount\<close>
  tokens (\<^verbatim>\<open>make\<close> panics on a negative size), and \<^verbatim>\<open>lastMetricTime\<close> is the clock
  reading \<^verbatim>\<open>now\<close> in nanoseconds.
\<close>

definition start :: "streamHandler \<Rightarrow> int \<Rightarrow> pipeline" where
  "start h now =
     \<lparr>processedChan = make_chan 100, done_closed = False,
      workers = make_chan (nat (workerCount h)), goroutines = [], reading = True,
      packetCounter = 0, lastMetricTime = now, stdout = [], ffmpeg = writer_start,
      panicked = (workerCount h < 0)\<rparr>"

definition close_chan :: "'a chan \<Rightarrow> 'a chan" where
  "close_chan c = c\<lparr>closed := True\<rparr>"

text \<open>Returning from \<^verbatim>\<open>processRTPPackets\<close> runs \<^verbatim>\<open>defer close(h.processedChan)\<close>.\<close>

definition loop_return :: "pipeline \<Rightarrow> pipeline" where
  "loop_return s = s\<lparr>reading := False, processedChan := close_chan (processedChan s)\<rparr>"

text \<open>The inner \<^verbatim>\<open>select\<close>: acquire a worker slot and start the goroutine, or drop the packet.\<close>

definition dispatch :: "streamHandler \<Rightarrow> pipeline \<Rightarrow> payload \<Rightarrow> pipeline" where
  "dispatch h s packet =
     (case try_send (workers s) () of
        Sent ws \<Rightarrow> s\<lparr>workers := ws, goroutines := goroutines s @ [Transform packet]\<rparr>
      | SendDefault \<Rightarrow>
          if metricsEnabled h then s\<lparr>stdout := stdout s @ [WorkerPoolFull]\<rparr> else s
      | SendPanic \<Rightarrow> s\<lparr>panicked := True\<rparr>)"

datatype read_result = Packet payload | ReadError

text \<open>
  One iteration of the \<^verbatim>\<open>for\<close> loop of \<^verbatim>\<open>processRTPPackets\<close>; \<^verbatim>\<open>r\<close> is what
  \<^verbatim>\<open>track.ReadRTP()\<close> returns when the loop gets to call it.
\<close>

definition loop_iteration :: "streamHandler \<Rightarrow> pipeline \<Rightarrow> read_result \<Rightarrow> pipeline" where
  "loop_iteration h s r =
     (if done_closed s then loop_return s
      else (case r of
              ReadError \<Rightarrow> loop_return (s\<lparr>stdout := stdout s @ [ErrorReadingRTP]\<rparr>)
            | Packet packet \<Rightarrow> dispatch h s packet))"

text \<open>
  The body of worker goroutine \<^verbatim>\<open>i\<close> up to its \<^verbatim>\<open>select\<close>: copy, then offer the copy
  to \<^verbatim>\<open>h.processedChan\<close>. A send that succeeds leads to the metrics statements, the
  \<^verbatim>\<open>default\<close> branch prints the drop, and a send on the closed channel panics.
\<close>

definition transform :: "streamHandler \<Rightarrow> pipeline \<Rightarrow> nat \<Rightarrow> payload \<Rightarrow> pipeline" where
  "transform h s i packet =
     (let payload = copy_bytes (make_bytes (length packet)) packet in
      case try_send (processedChan s) payload of
        Sent c \<Rightarrow>
          s\<lparr>processedChan := c,
            goroutines := (goroutines s)[i := (if metricsEnabled h then Count else Release)]\<rparr>
      | SendDefault \<Rightarrow>
          (if metricsEnabled h
           then s\<lparr>goroutines := (goroutines s)[i := Release],
                  stdout := stdout s @ [PacketDroppedBufferFull]\<rparr>
           else s\<lparr>goroutines := (goroutines s)[i := Release]\<rparr>)
      | SendPanic \<Rightarrow> s\<lparr>panicked := True\<rparr>)"

text \<open>
  The metrics statements of worker \<^verbatim>\<open>i\<close> after a successful send (main.go:70-74), one
  per step: the read and the write of \<^verbatim>\<open>packetCounter++\<close>, the test of
  \<^verbatim>\<open>time.Since(lastMetricTime) >= time.Second\<close> against the clock reading
  \<^verbatim>\<open>since\<close> (a second is \<^verbatim>\<open>1000000000\<close> nanoseconds), the \<^verbatim>\<open>Printf\<close> of the counter,
  \<^verbatim>\<open>packetCounter = 0\<close>, and \<^verbatim>\<open>lastMetricTime = time.Now()\<close> with the clock
  reading \<^verbatim>\<open>now\<close>. Other workers may run between any two of them.
\<close>

definition metrics :: "pipeline \<Rightarrow> nat \<Rightarrow> goroutine \<Rightarrow> int \<Rightarrow> int \<Rightarrow> pipeline" where
  "metrics s i g since now =
     (case g of
        Count \<Rightarrow> s\<lparr>goroutines := (goroutines s)[i := CountStore (packetCounter s)]\<rparr>
      | CountStore r \<Rightarrow> s\<lparr>packetCounter := r + 1, goroutines := (goroutines s)[i := Check]\<rparr>
      | Check \<Rightarrow>
          s\<lparr>goroutines :=
              (goroutines s)[i := (if since - lastMetricTime s \<ge> 1000000000 then Print
                                   else Release)]\<rparr>
      | Print \<Rightarrow>
          s\<lparr>stdout := stdout s @ [ProcessedPerSec (packetCounter s)],
            goroutines := (goroutines s)[i := Reset]\<rparr>
      | Reset \<Rightarrow> s\<lparr>packetCounter := 0, goroutines := (goroutines s)[i := Stamp]\<rparr>
      | Stamp \<Rightarrow> s\<lparr>lastMetricTime := now, goroutines := (goroutines s)[i := Release]\<rparr>
      | _ \<Rightarrow> s)"

text \<open>The deferred \<^verbatim>\<open><-workers\<close> of goroutine \<^verbatim>\<open>i\<close>, after which the goroutine is gone.\<close>

definition release :: "pipeline \<Rightarrow> nat \<Rightarrow> pipeline option" where
  "release s i =
     (case recv (workers s) of
        Received u ws \<Rightarrow>
          Some (s\<lparr>workers := ws,
                  goroutines := take i (goroutines s) @ drop (Suc i) (goroutines s)\<rparr>)
      | RecvClosed \<Rightarrow>
          Some (s\<lparr>goroutines := take i (goroutines s) @ drop (Suc i) (goroutines s)\<rparr>)
      | RecvBlocked \<Rightarrow> None)"

text \<open>
  What the scheduler and the environment decide: which goroutine moves next, what
  \<^verbatim>\<open>ReadRTP\<close> returns, the clock readings, which ready case the writer's \<^verbatim>\<open>select\<close>
  takes, and when \<^verbatim>\<open>main\<close> closes \<^verbatim>\<open>handler.done\<close>.
\<close>

datatype event =
    Loop read_result
  | Worker nat int int
  | WriterRecv
  | WriterTick
  | Shutdown

text \<open>
  One step of the pipeline; \<^verbatim>\<open>None\<close> when the event cannot happen in this state: the
  goroutine does not exist, has returned, or is blocked. Nothing moves after a panic.
\<close>

definition step ::
  "streamHandler \<Rightarrow> sink_behaviour \<Rightarrow> pipeline \<Rightarrow> event \<Rightarrow> pipeline option" where
  "step h ok s ev =
     (if panicked s then None
      else (case ev of
              Loop r \<Rightarrow> if reading s then Some (loop_iteration h s r) else None
            | Worker i since now \<Rightarrow>
                if i < length (goroutines s)
                then (case goroutines s ! i of
                        Transform packet \<Rightarrow> Some (transform h s i packet)
                      | Release \<Rightarrow> release s i
                      | g \<Rightarrow> Some (metrics s i g since now))
                else None
            | WriterRecv \<Rightarrow>
                if returned (ffmpeg s) then None
                else (case recv (processedChan s) of
                        Received p c \<Rightarrow>
                          Some (s\<lparr>processedChan := c,
                                  ffmpeg := writer_select ok (ffmpeg s) (Payload p)\<rparr>)
                      | RecvClosed \<Rightarrow>
                          Some (s\<lparr>ffmpeg := writer_select ok (ffmpeg s) QueueClosed\<rparr>)
                      | RecvBlocked \<Rightarrow> None)
            | WriterTick \<Rightarrow>
                if returned (ffmpeg s) then None
                else Some (s\<lparr>ffmpeg := writer_select ok (ffmpeg s) Tick\<rparr>)
            | Shutdown \<Rightarrow>
                if done_closed s then None else Some (s\<lparr>done_closed := True\<rparr>)))"

text \<open>A schedule is a list of events; an event that cannot happen leaves the state as it is.\<close>

fun run :: "streamHandler \<Rightarrow> sink_behaviour \<Rightarrow> pipeline \<Rightarrow> event list \<Rightarrow> pipeline" where
  "run h ok s [] = s"
| "run h ok s (ev # evs) =
     run h ok (case step h ok s ev of None \<Rightarrow> s | Some s' \<Rightarrow> s') evs"

text \<open>
  The dispatch attempts of a schedule: the loop iterations that get a packet from
  \<^verbatim>\<open>ReadRTP\<close> and reach the inner \<^verbatim>\<open>select\<close>.
\<close>

definition is_dispatch :: "pipeline \<Rightarrow> event \<Rightarrow> bool" where
  "is_dispatch s ev =
     (case ev of
        Loop (Packet packet) \<Rightarrow> \<not> panicked s \<and> reading s \<and> \<not> done_closed s
      | _ \<Rightarrow> False)"

fun dispatch_attempts ::
  "streamHandler \<Rightarrow> sink_behaviour \<Rightarrow> pipeline \<Rightarrow> event list \<Rightarrow> nat" where
  "dispatch_attempts h ok s [] = 0"
| "dispatch_attempts h ok s (ev # evs) =
     (if is_dispatch s ev then 1 else 0) +
     dispatch_attempts h ok (case step h ok s ev of None \<Rightarrow> s | Some s' \<Rightarrow> s') evs"

text \<open>
  The handoffs of a schedule: the worker steps whose send to \<^verbatim>\<open>h.processedChan\<close>
  succeeds.
\<close>

definition is_handoff :: "pipeline \<Rightarrow> event \<Rightarrow> bool" where
  "is_handoff s ev =
     (case ev of
        Worker i since now \<Rightarrow>
          \<not> panicked s \<and> i < length (goroutines s) \<and>
          (case goroutines s ! i of
             Transform packet \<Rightarrow>
               (case try_send (processedChan s)
                       (copy_bytes (make_bytes (length packet)) packet) of
                  Sent c \<Rightarrow> True
                | _ \<Rightarrow> False)
           | _ \<Rightarrow> False)
      | _ \<Rightarrow> False)"

fun handoffs :: "streamHandler \<Rightarrow> sink_behaviour \<Rightarrow> pipeline \<Rightarrow> event list \<Rightarrow> nat" where
  "handoffs h ok s [] = 0"
| "handoffs h ok s (ev # evs) =
     (if is_handoff s ev then 1 else 0) +
     handoffs h ok (case step h ok s ev of None \<Rightarrow> s | Some s' \<Rightarrow> s') evs"

text \<open>The drop lines printed, and the workers that have not made their offer yet.\<close>

fun drop_lines :: "line list \<Rightarrow> nat" where
  "drop_lines [] = 0"
| "drop_lines (PacketDroppedBufferFull # ls) = Suc (drop_lines ls)"
| "drop_lines (WorkerPoolFull # ls) = Suc (drop_lines ls)"
| "drop_lines (l # ls) = drop_lines ls"

fun transforming :: "goroutine list \<Rightarrow> nat" where
  "transforming [] = 0"
| "transforming (Transform packet # gs) = Suc (transforming gs)"
| "transforming (g # gs) = transforming gs"

subsection \<open>Sinks that fail\<close>

definition fails_first_write :: sink_behaviour where
  "fails_first_write calls p = (calls \<noteq> [])"

definition fails_second_write :: sink_behaviour where
  "fails_second_write calls p = (length calls \<noteq> 1)"

definition sink_down :: sink_behaviour where
  "sink_down calls p = False"



subsection \<open>Invariants and sample states\<close>

text \<open>Every worker goroutine in flight holds one slot of the \<^verbatim>\<open>workers\<close> channel.\<close>

definition slots_held :: "streamHandler \<Rightarrow> pipeline \<Rightarrow> bool" where
  "slots_held h s =
     (length (goroutines s) = length (buf (workers s)) \<and>
      length (buf (workers s)) \<le> cap (workers s) \<and>
      cap (workers s) = nat (workerCount h) \<and> \<not> closed (workers s))"

text \<open>
  How many steps a worker is from the end of its deferred release, at most.
\<close>

fun steps_left :: "goroutine \<Rightarrow> nat" where
  "steps_left (Transform packet) = 7"
| "steps_left Count = 6"
| "steps_left (CountStore r) = 5"
| "steps_left Check = 4"
| "steps_left Print = 3"
| "steps_left Reset = 2"
| "steps_left Stamp = 1"
| "steps_left Release = 0"



text \<open>
  The state with all four slots taken and the queue at its capacity of 100 that is
  reached when 100 packets go through while the writer is idle and four more are
  dispatched; and the state reached when the source fails after two packets went
  through, one of them already in the writer's batch.
\<close>

definition saturated :: pipeline where
  "saturated =
     (start (newStreamHandler 4) 0)
       \<lparr>processedChan := \<lparr>buf = replicate 100 [0], cap = 100, closed = False\<rparr>,
        workers := \<lparr>buf = [(), (), (), ()], cap = 4, closed = False\<rparr>,
        goroutines := [Transform [1], Transform [2], Transform [3], Transform [4]],
        packetCounter := 100\<rparr>"


section \<open>Properties of the flush\<close>

lemma copy_make_bytes: "copy_bytes (make_bytes (length p)) p = p"
  by (simp add: copy_bytes_def make_bytes_def)

lemma accepted_Cons: "accepted (p # ps) = (p, True) # accepted ps"
  by (simp add: accepted_def)


lemma write_range_ok:
  "write_range ok ps calls = (calls', True) \<Longrightarrow> calls' = calls @ accepted ps"
proof (induction ps arbitrary: calls)
  case Nil
  then show ?case by (simp add: accepted_def)
next
  case (Cons p ps)
  then have "write_range ok ps (calls @ [(p, True)]) = (calls', True)"
    by (simp split: if_splits)
  from Cons.IH [OF this] show ?case
    by (simp add: accepted_Cons)
qed

lemma write_range_fail:
  "write_range ok ps calls = (calls', False) \<Longrightarrow>
   \<exists>pre q post. ps = pre @ q # post \<and> calls' = calls @ accepted pre @ [(q, False)]"
proof (induction ps arbitrary: calls)
  case Nil
  then show ?case by simp
next
  case (Cons p ps)
  show ?case
  proof (cases "ok calls p")
    case True
    with Cons.prems have "write_range ok ps (calls @ [(p, True)]) = (calls', False)"
      by simp
    from Cons.IH [OF this] obtain pre q post
      where "ps = pre @ q # post" "calls' = (calls @ [(p, True)]) @ accepted pre @ [(q, False)]"
      by blast
    then have "p # ps = (p # pre) @ q # post \<and> calls' = calls @ accepted (p # pre) @ [(q, False)]"
      by (simp add: accepted_def)
    then show ?thesis by blast
  next
    case False
    with Cons.prems have "calls' = calls @ [(p, False)]" by simp
    then have "p # ps = [] @ p # ps \<and> calls' = calls @ accepted [] @ [(p, False)]"
      by (simp add: accepted_def)
    then show ?thesis by blast
  qed
qed

lemma flushBatch_empty: "batch w = [] \<Longrightarrow> flushBatch ok w = w"
  by (simp add: flushBatch_def)

lemma flushBatch_cases:
  "(batch w = [] \<and> flushBatch ok w = w) \<or>
   (batch w \<noteq> [] \<and>
    flushBatch ok w = w\<lparr>batch := [], stdin_calls := stdin_calls w @ accepted (batch w)\<rparr>) \<or>
   (\<exists>pre q post. batch w = pre @ q # post \<and>
      flushBatch ok w = w\<lparr>stdin_calls := stdin_calls w @ accepted pre @ [(q, False)],
                           printed := printed w @ [ErrorWritingFFmpeg]\<rparr>)"
proof (cases "batch w = []")
  case True
  then show ?thesis by (simp add: flushBatch_empty)
next
  case False
  obtain calls r where wr: "write_range ok (batch w) (stdin_calls w) = (calls, r)"
    by (cases "write_range ok (batch w) (stdin_calls w)") auto
  show ?thesis
  proof (cases r)
    case True
    with wr have "write_range ok (batch w) (stdin_calls w) = (calls, True)"
      by simp
    then have "calls = stdin_calls w @ accepted (batch w)"
      by (rule write_range_ok)
    with wr True False show ?thesis by (simp add: flushBatch_def)
  next
    case r: False
    with wr have "write_range ok (batch w) (stdin_calls w) = (calls, False)"
      by simp
    from write_range_fail [OF this] obtain pre q post where
      "batch w = pre @ q # post" "calls = stdin_calls w @ accepted pre @ [(q, False)]"
      by blast
    with wr r False have "batch w = pre @ q # post \<and>
      flushBatch ok w = w\<lparr>stdin_calls := stdin_calls w @ accepted pre @ [(q, False)],
                           printed := printed w @ [ErrorWritingFFmpeg]\<rparr>"
      by (simp add: flushBatch_def)
    then show ?thesis by blast
  qed
qed

lemma list_all_accepted: "list_all snd (accepted ps)"
  by (simp add: accepted_def list_all_iff)

lemma map_fst_accepted: "map fst (accepted ps) = ps"
  by (simp add: accepted_def comp_def)

lemma flushBatch_returned: "returned (flushBatch ok w) = returned w"
  using flushBatch_cases [of w ok] by auto

lemma flushBatch_extends: "\<exists>zs. stdin_calls (flushBatch ok w) = stdin_calls w @ zs"
  using flushBatch_cases [of w ok] by auto

text \<open>A flush whose writes all succeed writes the whole batch, in order, and clears it.\<close>

lemma flushBatch_clean:
  assumes "list_all snd (drop (length (stdin_calls w)) (stdin_calls (flushBatch ok w)))"
  shows "flushBatch ok w = w\<lparr>batch := [], stdin_calls := stdin_calls w @ accepted (batch w)\<rparr>"
  using flushBatch_cases [of w ok] assms by (auto simp: accepted_def)

section \<open>Runs of the writer loop\<close>

lemma writer_select_clean:
  assumes "list_all snd (drop (length (stdin_calls w)) (stdin_calls (writer_select ok w ev)))"
  shows "writer_select ok w ev =
     (case ev of
        Payload p \<Rightarrow>
          if batchSize \<le> length (batch w) + 1
          then w\<lparr>batch := [], stdin_calls := stdin_calls w @ accepted (batch w @ [p])\<rparr>
          else w\<lparr>batch := batch w @ [p]\<rparr>
      | QueueClosed \<Rightarrow>
          w\<lparr>batch := [], stdin_calls := stdin_calls w @ accepted (batch w), returned := True\<rparr>
      | Tick \<Rightarrow> w\<lparr>batch := [], stdin_calls := stdin_calls w @ accepted (batch w)\<rparr>)"
proof (cases ev)
  case (Payload p)
  let ?w = "w\<lparr>batch := batch w @ [p]\<rparr>"
  show ?thesis
  proof (cases "batchSize \<le> length (batch w) + 1")
    case True
    with Payload assms
    have "list_all snd (drop (length (stdin_calls ?w)) (stdin_calls (flushBatch ok ?w)))"
      by (simp add: writer_select_def Let_def)
    from flushBatch_clean [OF this] Payload True show ?thesis
      by (simp add: writer_select_def Let_def)
  next
    case False
    with Payload show ?thesis by (simp add: writer_select_def Let_def)
  qed
next
  case QueueClosed
  with assms have "list_all snd (drop (length (stdin_calls w)) (stdin_calls (flushBatch ok w)))"
    by (simp add: writer_select_def Let_def)
  from flushBatch_clean [OF this] QueueClosed show ?thesis
    by (simp add: writer_select_def Let_def)
next
  case Tick
  with assms have "list_all snd (drop (length (stdin_calls w)) (stdin_calls (flushBatch ok w)))"
    by (simp add: writer_select_def Let_def)
  from flushBatch_clean [OF this] Tick show ?thesis
    by (simp add: writer_select_def Let_def)
qed

lemma writer_select_extends: "\<exists>zs. stdin_calls (writer_select ok w ev) = stdin_calls w @ zs"
proof (cases ev)
  case (Payload p)
  show ?thesis
    using flushBatch_extends [of ok "w\<lparr>batch := batch w @ [p]\<rparr>"] Payload
    by (auto simp: writer_select_def Let_def)
next
  case QueueClosed
  then show ?thesis using flushBatch_extends [of ok w] by (auto simp: writer_select_def Let_def)
next
  case Tick
  then show ?thesis using flushBatch_extends [of ok w] by (auto simp: writer_select_def Let_def)
qed

lemma writeToFFmpeg_extends: "\<exists>zs. stdin_calls (writeToFFmpeg ok w evs) = stdin_calls w @ zs"
proof (induction evs arbitrary: w)
  case Nil
  then show ?case by simp
next
  case (Cons ev evs)
  show ?case
  proof (cases "returned w")
    case True
    then show ?thesis by simp
  next
    case False
    obtain zs where "stdin_calls (writer_select ok w ev) = stdin_calls w @ zs"
      using writer_select_extends by blast
    moreover obtain zs' where
      "stdin_calls (writeToFFmpeg ok (writer_select ok w ev) evs) =
       stdin_calls (writer_select ok w ev) @ zs'"
      using Cons.IH by blast
    ultimately show ?thesis using False by simp
  qed
qed

lemma clean_run_clean_step:
  assumes "list_all snd (stdin_calls (writeToFFmpeg ok (writer_select ok w ev) evs))"
  shows "list_all snd (stdin_calls w)"
    and "list_all snd (drop (length (stdin_calls w)) (stdin_calls (writer_select ok w ev)))"
proof -
  obtain zs where a: "stdin_calls (writer_select ok w ev) = stdin_calls w @ zs"
    using writer_select_extends by blast
  obtain zs' where
    b: "stdin_calls (writeToFFmpeg ok (writer_select ok w ev) evs) =
       stdin_calls (writer_select ok w ev) @ zs'"
    using writeToFFmpeg_extends by blast
  from assms a b show "list_all snd (stdin_calls w)" by simp
  from assms a b
  show "list_all snd (drop (length (stdin_calls w)) (stdin_calls (writer_select ok w ev)))"
    by simp
qed

lemma writer_fifo:
  assumes "list_all snd (stdin_calls (writeToFFmpeg ok w evs))"
  shows "map fst (stdin_calls (writeToFFmpeg ok w evs)) @ batch (writeToFFmpeg ok w evs) =
         map fst (stdin_calls w) @ batch w @ (if returned w then [] else drained evs)"
  using assms
proof (induction evs arbitrary: w)
  case Nil
  then show ?case by simp
next
  case (Cons ev evs)
  show ?case
  proof (cases "returned w")
    case True
    then show ?thesis by simp
  next
    case False
    let ?w1 = "writer_select ok w ev"
    from Cons.prems False have fin: "list_all snd (stdin_calls (writeToFFmpeg ok ?w1 evs))"
      by simp
    from clean_run_clean_step(2) [OF fin]
    have step: "?w1 = (case ev of
        Payload p \<Rightarrow>
          if batchSize \<le> length (batch w) + 1
          then w\<lparr>batch := [], stdin_calls := stdin_calls w @ accepted (batch w @ [p])\<rparr>
          else w\<lparr>batch := batch w @ [p]\<rparr>
      | QueueClosed \<Rightarrow>
          w\<lparr>batch := [], stdin_calls := stdin_calls w @ accepted (batch w), returned := True\<rparr>
      | Tick \<Rightarrow> w\<lparr>batch := [], stdin_calls := stdin_calls w @ accepted (batch w)\<rparr>)"
      by (rule writer_select_clean)
    have "map fst (stdin_calls ?w1) @ batch ?w1 @ (if returned ?w1 then [] else drained evs) =
          map fst (stdin_calls w) @ batch w @ drained (ev # evs)"
      using False by (subst (1 2 3) step) (cases ev; simp add: map_fst_accepted)
    with Cons.IH [OF fin] False show ?thesis by simp
  qed
qed

lemma writer_batch_bound:
  assumes "list_all snd (stdin_calls (writeToFFmpeg ok w evs))" "length (batch w) < batchSize"
  shows "length (batch (writeToFFmpeg ok w evs)) < batchSize"
  using assms
proof (induction evs arbitrary: w)
  case Nil
  then show ?case by simp
next
  case (Cons ev evs)
  show ?case
  proof (cases "returned w")
    case True
    with Cons.prems show ?thesis by simp
  next
    case False
    let ?w1 = "writer_select ok w ev"
    from Cons.prems False have fin: "list_all snd (stdin_calls (writeToFFmpeg ok ?w1 evs))"
      by simp
    have "length (batch ?w1) < batchSize"
      using Cons.prems(2)
      by (subst writer_select_clean [OF clean_run_clean_step(2) [OF fin]])
         (cases ev; simp add: batchSize_def)
    from Cons.IH [OF fin this] False show ?thesis by simp
  qed
qed

lemma writeToFFmpeg_snoc:
  "writeToFFmpeg ok w (evs @ [ev]) =
   (if returned (writeToFFmpeg ok w evs) then writeToFFmpeg ok w evs
    else writer_select ok (writeToFFmpeg ok w evs) ev)"
  by (induction evs arbitrary: w) auto


lemmas writer_eval =
  writer_start_def writer_select_def flushBatch_def batchSize_def accepted_def
  fails_first_write_def fails_second_write_def sink_down_def Let_def

section \<open>Claims about the batching writer\<close>

text \<open>
  C3, as amended (FIFO writer order). For every sequence of events of the writer loop,
  as long as no \<^verbatim>\<open>Write\<close> to the sink has returned an error, the payloads the sink has
  received, followed by the payloads still in the batch, are exactly the payloads
  drained from the queue, in drain order: each flush writes its batch front to back,
  and the flushes follow one another in the order their payloads were drained.
\<close>

theorem fifo_writer_order:
  assumes "w' = writeToFFmpeg ok writer_start evs"
    and "list_all snd (stdin_calls w')"
  shows "map fst (stdin_calls w') @ batch w' = drained evs"
  using writer_fifo [of ok writer_start evs] assms
  by (simp add: writer_start_def)

theorem fifo_writer_order_witness:
  "list_all snd (stdin_calls (writeToFFmpeg (\<lambda>calls p. True) writer_start
      [Payload [1], Tick, Payload [2], Payload [3], Payload [4], Payload [5], Payload [6],
       Payload [7]]))
   \<and> stdin_calls (writeToFFmpeg (\<lambda>calls p. True) writer_start
      [Payload [1], Tick, Payload [2], Payload [3], Payload [4], Payload [5], Payload [6],
       Payload [7]]) = accepted [[1], [2], [3], [4], [5], [6]]
   \<and> map fst (stdin_calls (writeToFFmpeg (\<lambda>calls p. True) writer_start
      [Payload [1], Tick, Payload [2], Payload [3], Payload [4], Payload [5], Payload [6],
       Payload [7]]))
      @ batch (writeToFFmpeg (\<lambda>calls p. True) writer_start
      [Payload [1], Tick, Payload [2], Payload [3], Payload [4], Payload [5], Payload [6],
       Payload [7]])
     = [[1], [2], [3], [4], [5], [6], [7]]"
  using fifo_writer_order [of _ "\<lambda>calls p. True"
      "[Payload [1], Tick, Payload [2], Payload [3], Payload [4], Payload [5], Payload [6],
       Payload [7]]", OF refl]
  by (simp add: writer_start_def writer_select_def flushBatch_def batchSize_def accepted_def
      Let_def)

text \<open>
  C3, as stated, fails when a \<^verbatim>\<open>Write\<close> returns an error: with a sink whose second
  write fails, the payloads 1, 2, 3 are drained and the sink receives 1, 2, 1, 2, 3, of
  which 1, 1, 2, 3 are written.
\<close>

theorem write_error_breaks_fifo:
  "drained [Payload [1], Payload [2], Payload [3], Tick, Tick] = [[1], [2], [3]] \<and>
   map fst (stdin_calls (writeToFFmpeg fails_second_write writer_start
     [Payload [1], Payload [2], Payload [3], Tick, Tick])) = [[1], [2], [1], [2], [3]] \<and>
   map fst (filter snd (stdin_calls (writeToFFmpeg fails_second_write writer_start
     [Payload [1], Payload [2], Payload [3], Tick, Tick]))) = [[1], [1], [2], [3]]"
  by (simp add: writer_eval)

text \<open>
  C4, as amended (size-triggered flush). In every state the writer reaches without a
  sink error, the batch holds fewer than \<^verbatim>\<open>batchSize\<close> = 5 payloads. Receiving a
  payload that brings it to 5 flushes at once, inside the same pass of the loop: unless
  a \<^verbatim>\<open>Write\<close> returns an error, the five payloads go to the sink in batch order and
  the batch is emptied; a payload that leaves the batch shorter is only appended.
  Either way the batch is below the threshold afterwards.
\<close>

theorem size_triggered_flush:
  assumes "w = writeToFFmpeg ok writer_start evs"
    and "\<not> returned w"
    and "w' = writer_select ok w (Payload p)"
    and "list_all snd (stdin_calls w')"
  shows "length (batch w) < batchSize \<and>
         (if length (batch w) + 1 = batchSize
          then batch w' = [] \<and> stdin_calls w' = stdin_calls w @ accepted (batch w @ [p])
          else batch w' = batch w @ [p] \<and> stdin_calls w' = stdin_calls w) \<and>
         length (batch w') < batchSize"
proof -
  have run: "w' = writeToFFmpeg ok writer_start (evs @ [Payload p])"
    using assms(1-3) by (simp add: writeToFFmpeg_snoc)
  obtain zs where "stdin_calls w' = stdin_calls w @ zs"
    using writer_select_extends assms(3) by blast
  with assms(4) have cw: "list_all snd (stdin_calls w)"
    and cs: "list_all snd (drop (length (stdin_calls w)) (stdin_calls (writer_select ok w (Payload p))))"
    using assms(3) by simp_all
  have b: "length (batch w) < batchSize"
    using writer_batch_bound [of ok writer_start evs] cw assms(1)
    by (simp add: writer_start_def batchSize_def)
  have b': "length (batch w') < batchSize"
    using writer_batch_bound [of ok writer_start "evs @ [Payload p]"] assms(4) run
    by (simp add: writer_start_def batchSize_def)
  from writer_select_clean [OF cs] assms(3) b
  have "if length (batch w) + 1 = batchSize
          then batch w' = [] \<and> stdin_calls w' = stdin_calls w @ accepted (batch w @ [p])
          else batch w' = batch w @ [p] \<and> stdin_calls w' = stdin_calls w"
    by (auto simp: batchSize_def)
  with b b' show ?thesis by simp
qed

theorem size_triggered_flush_witness:
  "\<not> returned (writeToFFmpeg (\<lambda>calls p. True) writer_start
        [Payload [1], Payload [2], Payload [3], Payload [4]])
   \<and> list_all snd (stdin_calls (writer_select (\<lambda>calls p. True)
        (writeToFFmpeg (\<lambda>calls p. True) writer_start
           [Payload [1], Payload [2], Payload [3], Payload [4]]) (Payload [5])))
   \<and> batch (writeToFFmpeg (\<lambda>calls p. True) writer_start
        [Payload [1], Payload [2], Payload [3], Payload [4]]) = [[1], [2], [3], [4]]
   \<and> batch (writer_select (\<lambda>calls p. True)
        (writeToFFmpeg (\<lambda>calls p. True) writer_start
           [Payload [1], Payload [2], Payload [3], Payload [4]]) (Payload [5])) = []
   \<and> stdin_calls (writer_select (\<lambda>calls p. True)
        (writeToFFmpeg (\<lambda>calls p. True) writer_start
           [Payload [1], Payload [2], Payload [3], Payload [4]]) (Payload [5]))
       = accepted [[1], [2], [3], [4], [5]]"
  using size_triggered_flush [of _ "\<lambda>calls p. True"
      "[Payload [1], Payload [2], Payload [3], Payload [4]]" _ "[5]", OF refl _ refl]
  by (simp add: writer_start_def writer_select_def flushBatch_def batchSize_def accepted_def
      Let_def)

text \<open>
  C4, as stated, fails when a \<^verbatim>\<open>Write\<close> returns an error: the flush at the fifth
  payload stops at the failed write and leaves all five in the batch, and with the sink
  still failing the batch holds seven payloads after two more.
\<close>

theorem write_error_keeps_batch:
  "batch (writeToFFmpeg sink_down writer_start
     [Payload [1], Payload [2], Payload [3], Payload [4], Payload [5]])
     = [[1], [2], [3], [4], [5]] \<and>
   stdin_calls (writeToFFmpeg sink_down writer_start
     [Payload [1], Payload [2], Payload [3], Payload [4], Payload [5]]) = [([1], False)] \<and>
   length (batch (writeToFFmpeg sink_down writer_start
     [Payload [1], Payload [2], Payload [3], Payload [4], Payload [5], Payload [6],
      Payload [7]])) = 7 \<and>
   batchSize = 5"
  by (simp add: writer_eval)

lemma accepted_inj: "accepted ps = accepted qs \<Longrightarrow> ps = qs"
  using map_fst_accepted by metis

text \<open>
  C10 (a failed flush is repeated). When a flush writes the payloads \<^verbatim>\<open>pre\<close> and the
  sink then returns an error for \<^verbatim>\<open>q\<close>, the batch is left as it was, with \<^verbatim>\<open>pre\<close>
  still in it, and the loop goes on. The next flush that meets no error writes the
  whole batch, so the sink receives \<^verbatim>\<open>pre\<close> a second time.
\<close>

theorem failed_flush_rewrites_prefix:
  assumes "\<not> returned w"
    and "w1 = writer_select ok w Tick"
    and "stdin_calls w1 = stdin_calls w @ accepted pre @ [(q, False)]"
    and "w2 = writer_select ok w1 Tick"
    and "list_all snd (drop (length (stdin_calls w1)) (stdin_calls w2))"
  shows "(\<exists>post. batch w = pre @ q # post) \<and> batch w1 = batch w \<and> \<not> returned w1 \<and>
         stdin_calls w2 = stdin_calls w @ accepted pre @ [(q, False)] @ accepted (batch w) \<and>
         batch w2 = []"
proof -
  have t1: "w1 = flushBatch ok w"
    using assms(2) by (simp add: writer_select_def)
  have not_all: "\<not> list_all snd (accepted pre @ [(q, False)])"
    by simp
  from flushBatch_cases [of w ok]
  obtain pre' q' post where
    b: "batch w = pre' @ q' # post" and
    f: "flushBatch ok w = w\<lparr>stdin_calls := stdin_calls w @ accepted pre' @ [(q', False)],
                           printed := printed w @ [ErrorWritingFFmpeg]\<rparr>"
  proof (elim disjE conjE exE)
    assume "batch w = []" "flushBatch ok w = w"
    with t1 assms(3) show ?thesis by simp
  next
    assume "flushBatch ok w = w\<lparr>batch := [], stdin_calls := stdin_calls w @ accepted (batch w)\<rparr>"
    with t1 assms(3) have "accepted (batch w) = accepted pre @ [(q, False)]" by simp
    with not_all list_all_accepted [of "batch w"] show ?thesis by simp
  next
    fix pre' q' post
    assume "batch w = pre' @ q' # post"
      "flushBatch ok w = w\<lparr>stdin_calls := stdin_calls w @ accepted pre' @ [(q', False)],
                           printed := printed w @ [ErrorWritingFFmpeg]\<rparr>"
    then show ?thesis by (rule that)
  qed
  from f t1 assms(3) have "accepted pre' @ [(q', False)] = accepted pre @ [(q, False)]"
    by simp
  then have "accepted pre' = accepted pre" "q' = q" by simp_all
  then have same: "pre' = pre" "q' = q" by (simp_all add: accepted_inj)
  have w1: "batch w1 = batch w" "returned w1 = returned w"
    using t1 f by simp_all
  from assms(4,5)
  have "w2 = (case Tick of
        Payload p \<Rightarrow>
          if batchSize \<le> length (batch w1) + 1
          then w1\<lparr>batch := [], stdin_calls := stdin_calls w1 @ accepted (batch w1 @ [p])\<rparr>
          else w1\<lparr>batch := batch w1 @ [p]\<rparr>
      | QueueClosed \<Rightarrow>
          w1\<lparr>batch := [], stdin_calls := stdin_calls w1 @ accepted (batch w1), returned := True\<rparr>
      | Tick \<Rightarrow> w1\<lparr>batch := [], stdin_calls := stdin_calls w1 @ accepted (batch w1)\<rparr>)"
    using writer_select_clean [of w1 ok Tick] by simp
  then have w2: "w2 = w1\<lparr>batch := [], stdin_calls := stdin_calls w1 @ accepted (batch w1)\<rparr>"
    by simp
  from b same have "\<exists>post. batch w = pre @ q # post" by blast
  with w1 w2 assms(1,3) show ?thesis by simp
qed

theorem failed_flush_rewrites_prefix_witness:
  "\<not> returned (writeToFFmpeg fails_second_write writer_start [Payload [1], Payload [2], Payload [3]])
   \<and> stdin_calls (writeToFFmpeg fails_second_write writer_start
        [Payload [1], Payload [2], Payload [3], Tick]) = [([1], True), ([2], False)]
   \<and> batch (writeToFFmpeg fails_second_write writer_start
        [Payload [1], Payload [2], Payload [3], Tick]) = [[1], [2], [3]]
   \<and> stdin_calls (writeToFFmpeg fails_second_write writer_start
        [Payload [1], Payload [2], Payload [3], Tick, Tick])
       = [([1], True), ([2], False), ([1], True), ([2], True), ([3], True)]"
  using failed_flush_rewrites_prefix [of
      "writeToFFmpeg fails_second_write writer_start [Payload [1], Payload [2], Payload [3]]"
      _ fails_second_write "[[1]]" "[2]", OF _ refl _ refl]
  by (simp add: writer_start_def writer_select_def flushBatch_def batchSize_def accepted_def
      fails_second_write_def Let_def)

text \<open>
  C7 (a write error should end the writer). With a sink whose first \<^verbatim>\<open>Write\<close> fails, the
  loop does not return: it writes the failed payload again at the next tick and goes on
  batching and writing later payloads.
\<close>

theorem writer_survives_write_error:
  "writeToFFmpeg fails_first_write writer_start [Payload [1], Tick, Payload [2], Tick] =
     \<lparr>batch = [], stdin_calls = [([1], False), ([1], True), ([2], True)],
      printed = [ErrorWritingFFmpeg], returned = False\<rparr>"
  by (simp add: writer_start_def writer_select_def flushBatch_def batchSize_def
      fails_first_write_def Let_def)

section \<open>The timer\<close>



lemma map2_replicate_minus:
  "length xs = n \<Longrightarrow> map2 (\<lambda>started a. started - a) (replicate n t) xs = map (\<lambda>a. t - a) xs"
  by (induction xs arbitrary: n) auto













section \<open>The worker pool\<close>

lemma slots_held_start: "slots_held h (start h now)"
  by (simp add: slots_held_def start_def make_chan_def)

lemma slots_held_loop:
  "slots_held h s \<Longrightarrow> slots_held h (loop_iteration h s r)"
  by (cases r)
     (auto simp: slots_held_def loop_iteration_def loop_return_def dispatch_def try_send_def)

lemma slots_held_transform:
  "slots_held h s \<Longrightarrow> slots_held h (transform h s i packet)"
  by (auto simp: transform_def Let_def slots_held_def split: send_result.splits)

lemma slots_held_metrics:
  "slots_held h s \<Longrightarrow> slots_held h (metrics s i g since now)"
  by (cases g) (auto simp: metrics_def slots_held_def)

lemma slots_held_release:
  assumes "slots_held h s" "i < length (goroutines s)" "release s i = Some s'"
  shows "slots_held h s'"
proof -
  from assms(1,2) obtain u us where "buf (workers s) = u # us"
    by (cases "buf (workers s)") (auto simp: slots_held_def)
  with assms show ?thesis
    by (auto simp: release_def recv_def slots_held_def)
qed

lemma slots_held_step:
  assumes "slots_held h s" "step h ok s ev = Some s'"
  shows "slots_held h s'"
proof (cases ev)
  case (Loop r)
  with assms show ?thesis
    by (auto simp: step_def slots_held_loop split: if_splits)
next
  case (Worker i since now)
  with assms show ?thesis
    by (auto simp: step_def slots_held_transform slots_held_release slots_held_metrics
        split: if_splits goroutine.splits)
next
  case WriterRecv
  with assms show ?thesis
    by (auto simp: step_def slots_held_def split: if_splits recv_result.splits)
next
  case WriterTick
  with assms show ?thesis
    by (auto simp: step_def slots_held_def split: if_splits)
next
  case Shutdown
  with assms show ?thesis
    by (auto simp: step_def slots_held_def split: if_splits)
qed

lemma slots_held_run: "slots_held h s \<Longrightarrow> slots_held h (run h ok s evs)"
proof (induction evs arbitrary: s)
  case Nil
  then show ?case by simp
next
  case (Cons ev evs)
  then show ?case
    by (cases "step h ok s ev") (auto intro: slots_held_step)
qed

text \<open>
  A worker that is not at its release can always take its next step, which brings it
  closer to the release whatever the offer did (or panics, on a closed queue); the
  release can always be taken, gives one slot back and ends the goroutine.
\<close>

lemma worker_advances:
  assumes "\<not> panicked s" "i < length (goroutines s)" "goroutines s ! i \<noteq> Release"
  shows "\<exists>s'. step h ok s (Worker i since now) = Some s' \<and>
           (panicked s' \<or>
            (workers s' = workers s \<and> length (goroutines s') = length (goroutines s) \<and>
             steps_left (goroutines s' ! i) < steps_left (goroutines s ! i)))"
  using assms
  by (cases "goroutines s ! i")
     (auto simp: step_def transform_def metrics_def Let_def split: send_result.splits)

lemma release_frees_slot:
  assumes "slots_held h s" "\<not> panicked s" "i < length (goroutines s)"
    "goroutines s ! i = Release"
  shows "\<exists>s'. step h ok s (Worker i since now) = Some s' \<and>
           goroutines s' = take i (goroutines s) @ drop (Suc i) (goroutines s) \<and>
           Suc (length (buf (workers s'))) = length (buf (workers s))"
proof -
  from assms(1,3) obtain u us where "buf (workers s) = u # us"
    by (cases "buf (workers s)") (auto simp: slots_held_def)
  with assms show ?thesis
    by (auto simp: step_def release_def recv_def)
qed

text \<open>
  C1 (bounded concurrency). In every state the pipeline reaches, under any schedule,
  the worker goroutines in flight are exactly as many as the slots held in the
  \<^verbatim>\<open>workers\<close> channel, and that number never exceeds \<^verbatim>\<open>workerCount\<close>: the slot is
  taken before the goroutine starts. It is given back unconditionally: a worker in
  flight is never blocked; each step before the release keeps the slot and brings the
  worker closer to the release, whether its offer was accepted or dropped; and the
  release removes the goroutine and frees exactly one slot.
\<close>

theorem bounded_concurrency:
  assumes "s = run h ok (start h now) evs"
  shows "length (goroutines s) = length (buf (workers s)) \<and>
         length (buf (workers s)) \<le> nat (workerCount h) \<and>
         (i < length (goroutines s) \<and> \<not> panicked s \<longrightarrow>
            (\<exists>s'. step h ok s (Worker i since t) = Some s' \<and>
               (if goroutines s ! i = Release
                then goroutines s' = take i (goroutines s) @ drop (Suc i) (goroutines s) \<and>
                     Suc (length (buf (workers s'))) = length (buf (workers s))
                else panicked s' \<or>
                     (workers s' = workers s \<and>
                      length (goroutines s') = length (goroutines s) \<and>
                      steps_left (goroutines s' ! i) < steps_left (goroutines s ! i)))))"
proof -
  have inv: "slots_held h s"
    using assms by (simp add: slots_held_run slots_held_start)
  then have bound: "length (goroutines s) = length (buf (workers s))"
    "length (buf (workers s)) \<le> nat (workerCount h)"
    by (simp_all add: slots_held_def)
  have "\<exists>s'. step h ok s (Worker i since t) = Some s' \<and>
               (if goroutines s ! i = Release
                then goroutines s' = take i (goroutines s) @ drop (Suc i) (goroutines s) \<and>
                     Suc (length (buf (workers s'))) = length (buf (workers s))
                else panicked s' \<or>
                     (workers s' = workers s \<and>
                      length (goroutines s') = length (goroutines s) \<and>
                      steps_left (goroutines s' ! i) < steps_left (goroutines s ! i)))"
    if "i < length (goroutines s)" "\<not> panicked s"
  proof (cases "goroutines s ! i = Release")
    case True
    with release_frees_slot [OF inv that(2,1) True, of ok since t] show ?thesis by simp
  next
    case False
    with worker_advances [OF that(2,1) False, of h ok since t] show ?thesis by simp
  qed
  with bound show ?thesis by blast
qed

lemmas pipeline_eval =
  newStreamHandler_def start_def make_chan_def step_def loop_iteration_def loop_return_def
  close_chan_def dispatch_def transform_def metrics_def release_def try_send_def
  recv_def copy_bytes_def make_bytes_def is_dispatch_def is_handoff_def writer_start_def Let_def

text \<open>Filling the queue while the writer is idle: the state \<^verbatim>\<open>saturated\<close> is reached.\<close>

lemma chan_buf_same: "buf c = v \<Longrightarrow> c\<lparr>buf := v\<rparr> = c"
  by simp

lemma fill_queue:
  assumes "metricsEnabled h" "\<not> panicked s" "reading s" "\<not> done_closed s"
    "goroutines s = []" "buf (workers s) = []" "0 < cap (workers s)" "\<not> closed (workers s)"
    "\<not> closed (processedChan s)" "length (buf (processedChan s)) + n \<le> cap (processedChan s)"
    "t - lastMetricTime s < 1000000000"
  shows "run h ok s (concat (replicate n
            [Loop (Packet p), Worker 0 t t, Worker 0 t t, Worker 0 t t, Worker 0 t t,
             Worker 0 t t]) @ evs) =
         run h ok (s\<lparr>processedChan := (processedChan s)\<lparr>buf := buf (processedChan s) @ replicate n p\<rparr>,
                      packetCounter := packetCounter s + of_nat n\<rparr>) evs"
  using assms(2-)
proof (induction n arbitrary: s)
  case 0
  then show ?case by simp
next
  case (Suc n)
  let ?cyc = "[Loop (Packet p), Worker 0 t t, Worker 0 t t, Worker 0 t t, Worker 0 t t,
             Worker 0 t t]"
  let ?s1 = "s\<lparr>processedChan := (processedChan s)\<lparr>buf := buf (processedChan s) @ [p]\<rparr>,
                 packetCounter := packetCounter s + 1\<rparr>"
  have cycle: "run h ok s (?cyc @ evs') = run h ok ?s1 evs'" for evs'
    using Suc.prems assms(1)
    by (cases s)
       (simp add: step_def loop_iteration_def dispatch_def try_send_def transform_def
          metrics_def release_def recv_def copy_make_bytes Let_def chan_buf_same)
  have ih: "run h ok ?s1 (concat (replicate n ?cyc) @ evs) =
        run h ok (?s1\<lparr>processedChan := (processedChan ?s1)\<lparr>buf := buf (processedChan ?s1) @ replicate n p\<rparr>,
                      packetCounter := packetCounter ?s1 + of_nat n\<rparr>) evs"
    using Suc.prems by (intro Suc.IH) simp_all
  have eq: "?s1\<lparr>processedChan := (processedChan ?s1)\<lparr>buf := buf (processedChan ?s1) @ replicate n p\<rparr>,
                      packetCounter := packetCounter ?s1 + of_nat n\<rparr> =
      s\<lparr>processedChan := (processedChan s)\<lparr>buf := buf (processedChan s) @ replicate (Suc n) p\<rparr>,
                      packetCounter := packetCounter s + of_nat (Suc n)\<rparr>"
    by (simp add: ac_simps)
  have "run h ok s (concat (replicate (Suc n) ?cyc) @ evs) =
        run h ok s (?cyc @ (concat (replicate n ?cyc) @ evs))"
    by simp
  also have "\<dots> = run h ok ?s1 (concat (replicate n ?cyc) @ evs)"
    by (rule cycle)
  also note ih
  also note eq
  finally show ?case .
qed

lemma saturated_reachable:
  "run (newStreamHandler 4) ok (start (newStreamHandler 4) 0)
     (concat (replicate 100
        [Loop (Packet [0]), Worker 0 0 0, Worker 0 0 0, Worker 0 0 0, Worker 0 0 0,
         Worker 0 0 0]) @
      [Loop (Packet [1]), Loop (Packet [2]), Loop (Packet [3]), Loop (Packet [4])])
   = saturated"
proof -
  let ?h = "newStreamHandler 4"
  have "run ?h ok (start ?h 0)
     (concat (replicate 100
        [Loop (Packet [0]), Worker 0 0 0, Worker 0 0 0, Worker 0 0 0, Worker 0 0 0,
         Worker 0 0 0]) @
      [Loop (Packet [1]), Loop (Packet [2]), Loop (Packet [3]), Loop (Packet [4])])
    = run ?h ok ((start ?h 0)\<lparr>processedChan := (processedChan (start ?h 0))
            \<lparr>buf := buf (processedChan (start ?h 0)) @ replicate 100 [0]\<rparr>,
          packetCounter := packetCounter (start ?h 0) + of_nat 100\<rparr>)
       [Loop (Packet [1]), Loop (Packet [2]), Loop (Packet [3]), Loop (Packet [4])]"
    by (rule fill_queue) (simp_all add: newStreamHandler_def start_def make_chan_def)
  also have "\<dots> = saturated"
    by (simp add: saturated_def newStreamHandler_def start_def make_chan_def step_def
        loop_iteration_def dispatch_def try_send_def)
  finally show ?thesis .
qed

theorem bounded_concurrency_witness:
  "goroutines (run (newStreamHandler 4) (\<lambda>calls p. True) (start (newStreamHandler 4) 0)
      [Loop (Packet [1]), Loop (Packet [2]), Worker 0 0 0, Worker 0 0 0, Worker 0 0 0,
       Worker 0 0 0]) = [Release, Transform [2]] \<and>
   length (buf (workers (run (newStreamHandler 4) (\<lambda>calls p. True)
      (start (newStreamHandler 4) 0)
      [Loop (Packet [1]), Loop (Packet [2]), Worker 0 0 0, Worker 0 0 0, Worker 0 0 0,
       Worker 0 0 0]))) = 2 \<and>
   \<not> panicked (run (newStreamHandler 4) (\<lambda>calls p. True) (start (newStreamHandler 4) 0)
      [Loop (Packet [1]), Loop (Packet [2]), Worker 0 0 0, Worker 0 0 0, Worker 0 0 0,
       Worker 0 0 0]) \<and>
   goroutines (run (newStreamHandler 4) (\<lambda>calls p. True) (start (newStreamHandler 4) 0)
      [Loop (Packet [1]), Loop (Packet [2]), Worker 0 0 0, Worker 0 0 0, Worker 0 0 0,
       Worker 0 0 0, Worker 0 0 0]) = [Transform [2]] \<and>
   length (buf (workers (run (newStreamHandler 4) (\<lambda>calls p. True)
      (start (newStreamHandler 4) 0)
      [Loop (Packet [1]), Loop (Packet [2]), Worker 0 0 0, Worker 0 0 0, Worker 0 0 0,
       Worker 0 0 0, Worker 0 0 0]))) = 1 \<and>
   goroutines saturated ! 0 = Transform [1] \<and> \<not> panicked saturated \<and>
   step (newStreamHandler 4) (\<lambda>calls p. True) saturated (Worker 0 0 0) =
     Some (saturated\<lparr>goroutines := [Release, Transform [2], Transform [3], Transform [4]],
                      stdout := [PacketDroppedBufferFull]\<rparr>)"
  using bounded_concurrency [of _ "newStreamHandler 4" "\<lambda>calls p. True" 0
      "[Loop (Packet [1]), Loop (Packet [2]), Worker 0 0 0, Worker 0 0 0, Worker 0 0 0,
       Worker 0 0 0]" 0 0 0, OF refl]
    bounded_concurrency [of saturated "newStreamHandler 4" "\<lambda>calls p. True" 0 _ 0 0 0,
      OF saturated_reachable [symmetric]]
  by (simp add: pipeline_eval saturated_def)

text \<open>
  C2, as amended (drops never block). The dispatch loop can always take its step. With
  every slot taken, dispatching a packet only prints the pool-full line: no goroutine
  is started, nothing is queued, nothing is retried, no counter changes. A worker can
  always take its step too, and with the queue at capacity and not closed its offer
  only prints the buffer-full line and moves on to the release. Both hold in the same
  state when pool and queue are full together.
\<close>

theorem drops_never_block:
  assumes "metricsEnabled h" and "\<not> panicked s"
  shows "(reading s \<longrightarrow> step h ok s (Loop r) \<noteq> None) \<and>
         (reading s \<and> \<not> done_closed s \<and> \<not> closed (workers s) \<and>
          cap (workers s) \<le> length (buf (workers s)) \<longrightarrow>
            step h ok s (Loop (Packet packet)) =
              Some (s\<lparr>stdout := stdout s @ [WorkerPoolFull]\<rparr>)) \<and>
         (i < length (goroutines s) \<and> goroutines s ! i = Transform packet \<longrightarrow>
            step h ok s (Worker i since now) \<noteq> None) \<and>
         (i < length (goroutines s) \<and> goroutines s ! i = Transform packet \<and>
          \<not> closed (processedChan s) \<and>
          cap (processedChan s) \<le> length (buf (processedChan s)) \<longrightarrow>
            step h ok s (Worker i since now) =
              Some (s\<lparr>goroutines := (goroutines s)[i := Release],
                      stdout := stdout s @ [PacketDroppedBufferFull]\<rparr>))"
  using assms
  by (simp add: step_def loop_iteration_def dispatch_def transform_def try_send_def Let_def)

theorem drops_never_block_witness:
  "metricsEnabled (newStreamHandler 4) \<and> \<not> panicked saturated \<and> reading saturated \<and>
   \<not> done_closed saturated \<and> \<not> closed (workers saturated) \<and>
   cap (workers saturated) \<le> length (buf (workers saturated)) \<and>
   goroutines saturated ! 0 = Transform [1] \<and> \<not> closed (processedChan saturated) \<and>
   cap (processedChan saturated) \<le> length (buf (processedChan saturated)) \<and>
   step (newStreamHandler 4) (\<lambda>calls p. True) saturated (Loop (Packet [5])) =
     Some (saturated\<lparr>stdout := [WorkerPoolFull]\<rparr>) \<and>
   step (newStreamHandler 4) (\<lambda>calls p. True) saturated (Worker 0 0 0) =
     Some (saturated\<lparr>goroutines := [Release, Transform [2], Transform [3], Transform [4]],
                      stdout := [PacketDroppedBufferFull]\<rparr>)"
  using drops_never_block [of "newStreamHandler 4" saturated "\<lambda>calls p. True" "Packet [5]"
      "[5]" 0 0 0]
    drops_never_block [of "newStreamHandler 4" saturated "\<lambda>calls p. True" "Packet [5]"
      "[1]" 0 0 0]
  by (simp add: saturated_def newStreamHandler_def start_def)

text \<open>
  C2, as stated, fails: a drop is not counted. With pool and queue full, a dispatch
  and an offer leave every counter as it was and only print their lines. And an offer
  to a queue that is full and already closed, with the worker still in flight, is not
  rejected but panics, and no drop is printed.
\<close>

theorem drops_change_no_counter:
  "run (newStreamHandler 4) (\<lambda>calls p. True) saturated [Loop (Packet [5]), Worker 0 0 0] =
     saturated\<lparr>goroutines := [Release, Transform [2], Transform [3], Transform [4]],
               stdout := [WorkerPoolFull, PacketDroppedBufferFull]\<rparr> \<and>
   packetCounter (run (newStreamHandler 4) (\<lambda>calls p. True) saturated
     [Loop (Packet [5]), Worker 0 0 0]) = packetCounter saturated \<and>
   length (buf (processedChan (run (newStreamHandler 4) (\<lambda>calls p. True)
     (start (newStreamHandler 4) 0)
     (concat (replicate 100
        [Loop (Packet [0]), Worker 0 0 0, Worker 0 0 0, Worker 0 0 0, Worker 0 0 0,
         Worker 0 0 0]) @ [Loop (Packet [1]), Loop ReadError])))) = 100 \<and>
   closed (processedChan (run (newStreamHandler 4) (\<lambda>calls p. True)
     (start (newStreamHandler 4) 0)
     (concat (replicate 100
        [Loop (Packet [0]), Worker 0 0 0, Worker 0 0 0, Worker 0 0 0, Worker 0 0 0,
         Worker 0 0 0]) @ [Loop (Packet [1]), Loop ReadError]))) \<and>
   panicked (run (newStreamHandler 4) (\<lambda>calls p. True) (start (newStreamHandler 4) 0)
     (concat (replicate 100
        [Loop (Packet [0]), Worker 0 0 0, Worker 0 0 0, Worker 0 0 0, Worker 0 0 0,
         Worker 0 0 0]) @ [Loop (Packet [1]), Loop ReadError, Worker 0 0 0])) \<and>
   stdout (run (newStreamHandler 4) (\<lambda>calls p. True) (start (newStreamHandler 4) 0)
     (concat (replicate 100
        [Loop (Packet [0]), Worker 0 0 0, Worker 0 0 0, Worker 0 0 0, Worker 0 0 0,
         Worker 0 0 0]) @ [Loop (Packet [1]), Loop ReadError, Worker 0 0 0]))
     = [ErrorReadingRTP]"
proof -
  let ?h = "newStreamHandler 4"
  let ?ok = "\<lambda>(calls :: sink_log) (p :: payload). True"
  let ?full = "(start ?h 0)\<lparr>processedChan := (processedChan (start ?h 0))
            \<lparr>buf := buf (processedChan (start ?h 0)) @ replicate 100 [0]\<rparr>,
          packetCounter := packetCounter (start ?h 0) + of_nat 100\<rparr>"
  have fill: "run ?h ?ok (start ?h 0)
     (concat (replicate 100
        [Loop (Packet [0]), Worker 0 0 0, Worker 0 0 0, Worker 0 0 0, Worker 0 0 0,
         Worker 0 0 0]) @ evs) = run ?h ?ok ?full evs" for evs
    by (rule fill_queue) (simp_all add: newStreamHandler_def start_def make_chan_def)
  show ?thesis
    by (simp add: fill) (simp add: pipeline_eval saturated_def)
qed

section \<open>Metrics\<close>

lemma drop_lines_append: "drop_lines (xs @ ys) = drop_lines xs + drop_lines ys"
  by (induction xs rule: drop_lines.induct) auto

lemma transforming_append: "transforming (xs @ ys) = transforming xs + transforming ys"
  by (induction xs rule: transforming.induct) auto

lemma transforming_leaves:
  assumes "i < length gs" "gs ! i = Transform packet" "steps_left g < 7"
  shows "transforming gs = Suc (transforming (gs[i := g]))"
  using assms
proof (induction gs arbitrary: i)
  case Nil
  then show ?case by simp
next
  case (Cons a gs)
  show ?case
  proof (cases i)
    case 0
    with Cons.prems show ?thesis by (cases g) auto
  next
    case (Suc j)
    with Cons show ?thesis by (cases a) auto
  qed
qed

lemma transforming_moves:
  assumes "i < length gs" "steps_left (gs ! i) < 7" "steps_left g < 7"
  shows "transforming (gs[i := g]) = transforming gs"
  using assms
proof (induction gs arbitrary: i)
  case Nil
  then show ?case by simp
next
  case (Cons a gs)
  show ?case
  proof (cases i)
    case 0
    with Cons.prems show ?thesis by (cases g; cases a) auto
  next
    case (Suc j)
    with Cons show ?thesis by (cases a) auto
  qed
qed

lemma transforming_remove:
  assumes "i < length gs" "gs ! i = Release"
  shows "transforming (take i gs @ drop (Suc i) gs) = transforming gs"
  using assms
proof (induction gs arbitrary: i)
  case Nil
  then show ?case by simp
next
  case (Cons a gs)
  show ?case
  proof (cases i)
    case 0
    with Cons.prems show ?thesis by simp
  next
    case (Suc j)
    with Cons show ?thesis by (cases a) auto
  qed
qed

lemma tally_loop:
  assumes "metricsEnabled h" "\<not> closed (workers s)" "\<not> panicked s" "reading s"
  shows "drop_lines (stdout (loop_iteration h s r)) + transforming (goroutines (loop_iteration h s r)) =
         drop_lines (stdout s) + transforming (goroutines s) +
         (if is_dispatch s (Loop r) then 1 else 0)"
  using assms
  by (cases r)
     (auto simp: loop_iteration_def loop_return_def dispatch_def try_send_def
        is_dispatch_def drop_lines_append transforming_append)

lemma tally_transform:
  assumes "metricsEnabled h" "\<not> panicked s" "i < length (goroutines s)"
    "goroutines s ! i = Transform packet"
  shows "drop_lines (stdout (transform h s i packet)) +
         transforming (goroutines (transform h s i packet)) +
         (if is_handoff s (Worker i since now) then 1 else 0) =
         drop_lines (stdout s) + transforming (goroutines s)"
  using assms transforming_leaves [of i "goroutines s" packet Count]
    transforming_leaves [of i "goroutines s" packet Release]
  by (auto simp: transform_def is_handoff_def try_send_def Let_def drop_lines_append)

lemma tally_metrics:
  assumes "i < length (goroutines s)" "goroutines s ! i = g" "steps_left g < 7" "g \<noteq> Release"
  shows "drop_lines (stdout (metrics s i g since now)) +
         transforming (goroutines (metrics s i g since now)) =
         drop_lines (stdout s) + transforming (goroutines s)"
  using assms
  by (cases g) (auto simp: metrics_def drop_lines_append transforming_moves)

lemma tally_release:
  assumes "i < length (goroutines s)" "goroutines s ! i = Release" "release s i = Some s'"
  shows "drop_lines (stdout s') + transforming (goroutines s') =
         drop_lines (stdout s) + transforming (goroutines s)"
  using assms transforming_remove [of i "goroutines s"]
  by (auto simp: release_def split: recv_result.splits)

lemma is_handoff_Worker:
  "is_handoff s ev \<Longrightarrow> \<exists>i since now packet. ev = Worker i since now \<and>
     i < length (goroutines s) \<and> goroutines s ! i = Transform packet"
  by (auto simp: is_handoff_def split: event.splits goroutine.splits)

lemma tally_step:
  assumes "metricsEnabled h" "\<not> closed (workers s)" "step h ok s ev = Some s'"
  shows "drop_lines (stdout s') + transforming (goroutines s') +
         (if is_handoff s ev then 1 else 0) =
         drop_lines (stdout s) + transforming (goroutines s) +
         (if is_dispatch s ev then 1 else 0)"
proof (cases ev)
  case (Loop r)
  with assms tally_loop [of h s r] show ?thesis
    by (auto simp: step_def is_handoff_def split: if_splits)
next
  case (Worker i since now)
  from assms(3) Worker have np: "\<not> panicked s" and i: "i < length (goroutines s)"
    by (auto simp: step_def split: if_splits)
  have nd: "\<not> is_dispatch s ev"
    using Worker by (simp add: is_dispatch_def)
  show ?thesis
  proof (cases "goroutines s ! i")
    case (Transform packet)
    with assms(3) Worker np i have "s' = transform h s i packet"
      by (simp add: step_def)
    with tally_transform [OF assms(1) np i Transform, of since now] nd Worker show ?thesis
      by simp
  next
    case Release
    with assms(3) Worker np i have "release s i = Some s'"
      by (simp add: step_def)
    from tally_release [OF i Release this] nd Worker Release show ?thesis
      by (simp add: is_handoff_def)
  qed (use assms(3) Worker np i nd tally_metrics [of i s _ since now] in
        \<open>auto simp: step_def is_handoff_def\<close>)
next
  case WriterRecv
  with assms show ?thesis
    by (auto simp: step_def is_dispatch_def is_handoff_def split: if_splits recv_result.splits)
next
  case WriterTick
  with assms show ?thesis
    by (auto simp: step_def is_dispatch_def is_handoff_def split: if_splits)
next
  case Shutdown
  with assms show ?thesis
    by (auto simp: step_def is_dispatch_def is_handoff_def split: if_splits)
qed

lemma is_dispatch_enabled: "is_dispatch s ev \<Longrightarrow> step h ok s ev \<noteq> None"
  by (auto simp: is_dispatch_def step_def split: event.splits read_result.splits)

lemma is_handoff_enabled: "is_handoff s ev \<Longrightarrow> step h ok s ev \<noteq> None"
  by (auto simp: is_handoff_def step_def split: event.splits goroutine.splits)

lemma tally_run:
  assumes "metricsEnabled h" "slots_held h s"
  shows "drop_lines (stdout (run h ok s evs)) + transforming (goroutines (run h ok s evs)) +
         handoffs h ok s evs =
         drop_lines (stdout s) + transforming (goroutines s) + dispatch_attempts h ok s evs"
  using assms(2)
proof (induction evs arbitrary: s)
  case Nil
  then show ?case by simp
next
  case (Cons ev evs)
  show ?case
  proof (cases "step h ok s ev")
    case None
    with is_dispatch_enabled [of s ev h ok] is_handoff_enabled [of s ev h ok]
    have "\<not> is_dispatch s ev" "\<not> is_handoff s ev" by auto
    with None Cons show ?thesis by simp
  next
    case (Some s')
    from Cons.prems have "\<not> closed (workers s)" by (simp add: slots_held_def)
    from tally_step [OF assms(1) this Some]
    have st: "drop_lines (stdout s') + transforming (goroutines s') +
         (if is_handoff s ev then 1 else 0) =
         drop_lines (stdout s) + transforming (goroutines s) +
         (if is_dispatch s ev then 1 else 0)" .
    from Cons.prems Some have "slots_held h s'" by (rule slots_held_step)
    from Cons.IH [OF this] st Some show ?thesis by simp
  qed
qed

text \<open>
  C9, as amended (accounting of dispatch attempts). With metrics enabled, under any
  schedule, every dispatch attempt is accounted for once: the number of dispatch
  attempts is the number of drop lines printed plus the number of payloads handed to
  the queue plus the number of workers that have not made their offer yet. The program
  keeps no dropped count; a drop is a printed line.
\<close>

theorem drop_accounting:
  assumes "metricsEnabled h"
  shows "dispatch_attempts h ok (start h now) evs =
         drop_lines (stdout (run h ok (start h now) evs)) +
         handoffs h ok (start h now) evs +
         transforming (goroutines (run h ok (start h now) evs))"
  using tally_run [OF assms slots_held_start [of h now], of ok evs]
  by (simp add: start_def)

theorem drop_accounting_witness:
  "metricsEnabled (newStreamHandler 4) \<and>
   dispatch_attempts (newStreamHandler 4) (\<lambda>calls p. True) (start (newStreamHandler 4) 0)
     [Loop (Packet [1]), Loop (Packet [2]), Loop (Packet [3]), Loop (Packet [4]),
      Loop (Packet [5]), Worker 0 0 0, Worker 1 0 0] = 5 \<and>
   drop_lines (stdout (run (newStreamHandler 4) (\<lambda>calls p. True) (start (newStreamHandler 4) 0)
     [Loop (Packet [1]), Loop (Packet [2]), Loop (Packet [3]), Loop (Packet [4]),
      Loop (Packet [5]), Worker 0 0 0, Worker 1 0 0])) = 1 \<and>
   handoffs (newStreamHandler 4) (\<lambda>calls p. True) (start (newStreamHandler 4) 0)
     [Loop (Packet [1]), Loop (Packet [2]), Loop (Packet [3]), Loop (Packet [4]),
      Loop (Packet [5]), Worker 0 0 0, Worker 1 0 0] = 2 \<and>
   transforming (goroutines (run (newStreamHandler 4) (\<lambda>calls p. True) (start (newStreamHandler 4) 0)
     [Loop (Packet [1]), Loop (Packet [2]), Loop (Packet [3]), Loop (Packet [4]),
      Loop (Packet [5]), Worker 0 0 0, Worker 1 0 0])) = 2"
  using drop_accounting [of "newStreamHandler 4" "\<lambda>calls p. True" 0
     "[Loop (Packet [1]), Loop (Packet [2]), Loop (Packet [3]), Loop (Packet [4]),
      Loop (Packet [5]), Worker 0 0 0, Worker 1 0 0]"]
  by (simp add: pipeline_eval)

text \<open>
  C9, as stated, fails: the program keeps no dropped count. A burst of five packets
  into four slots and a run of four packets end, once the workers are done, in the
  same state but for the one printed line: \<^verbatim>\<open>packetCounter\<close> is 4 in both, after 5 and
  after 4 dispatch attempts.
\<close>

theorem no_dropped_count:
  "dispatch_attempts (newStreamHandler 4) (\<lambda>calls p. True) (start (newStreamHandler 4) 0)
     [Loop (Packet [1]), Loop (Packet [1]), Loop (Packet [1]), Loop (Packet [1]),
      Loop (Packet [1]),
      Worker 0 0 0, Worker 0 0 0, Worker 0 0 0, Worker 0 0 0, Worker 0 0 0,
      Worker 0 0 0, Worker 0 0 0, Worker 0 0 0, Worker 0 0 0, Worker 0 0 0,
      Worker 0 0 0, Worker 0 0 0, Worker 0 0 0, Worker 0 0 0, Worker 0 0 0,
      Worker 0 0 0, Worker 0 0 0, Worker 0 0 0, Worker 0 0 0, Worker 0 0 0] = 5 \<and>
   dispatch_attempts (newStreamHandler 4) (\<lambda>calls p. True) (start (newStreamHandler 4) 0)
     [Loop (Packet [1]), Loop (Packet [1]), Loop (Packet [1]), Loop (Packet [1]),
      Worker 0 0 0, Worker 0 0 0, Worker 0 0 0, Worker 0 0 0, Worker 0 0 0,
      Worker 0 0 0, Worker 0 0 0, Worker 0 0 0, Worker 0 0 0, Worker 0 0 0,
      Worker 0 0 0, Worker 0 0 0, Worker 0 0 0, Worker 0 0 0, Worker 0 0 0,
      Worker 0 0 0, Worker 0 0 0, Worker 0 0 0, Worker 0 0 0, Worker 0 0 0] = 4 \<and>
   packetCounter (run (newStreamHandler 4) (\<lambda>calls p. True) (start (newStreamHandler 4) 0)
     [Loop (Packet [1]), Loop (Packet [1]), Loop (Packet [1]), Loop (Packet [1]),
      Loop (Packet [1]),
      Worker 0 0 0, Worker 0 0 0, Worker 0 0 0, Worker 0 0 0, Worker 0 0 0,
      Worker 0 0 0, Worker 0 0 0, Worker 0 0 0, Worker 0 0 0, Worker 0 0 0,
      Worker 0 0 0, Worker 0 0 0, Worker 0 0 0, Worker 0 0 0, Worker 0 0 0,
      Worker 0 0 0, Worker 0 0 0, Worker 0 0 0, Worker 0 0 0, Worker 0 0 0]) = 4 \<and>
   run (newStreamHandler 4) (\<lambda>calls p. True) (start (newStreamHandler 4) 0)
     [Loop (Packet [1]), Loop (Packet [1]), Loop (Packet [1]), Loop (Packet [1]),
      Loop (Packet [1]),
      Worker 0 0 0, Worker 0 0 0, Worker 0 0 0, Worker 0 0 0, Worker 0 0 0,
      Worker 0 0 0, Worker 0 0 0, Worker 0 0 0, Worker 0 0 0, Worker 0 0 0,
      Worker 0 0 0, Worker 0 0 0, Worker 0 0 0, Worker 0 0 0, Worker 0 0 0,
      Worker 0 0 0, Worker 0 0 0, Worker 0 0 0, Worker 0 0 0, Worker 0 0 0]
   = (run (newStreamHandler 4) (\<lambda>calls p. True) (start (newStreamHandler 4) 0)
     [Loop (Packet [1]), Loop (Packet [1]), Loop (Packet [1]), Loop (Packet [1]),
      Worker 0 0 0, Worker 0 0 0, Worker 0 0 0, Worker 0 0 0, Worker 0 0 0,
      Worker 0 0 0, Worker 0 0 0, Worker 0 0 0, Worker 0 0 0, Worker 0 0 0,
      Worker 0 0 0, Worker 0 0 0, Worker 0 0 0, Worker 0 0 0, Worker 0 0 0,
      Worker 0 0 0, Worker 0 0 0, Worker 0 0 0, Worker 0 0 0, Worker 0 0 0])\<lparr>stdout := [WorkerPoolFull]\<rparr>"
  by (simp add: pipeline_eval)

text \<open>
  The counter itself is updated by the workers without synchronisation: when four
  workers each increment and print it before any of them resets it, the counts printed
  for five packets are 1, 2, 3, 4 and 1.
\<close>

lemma counter_race:
  "dispatch_attempts (newStreamHandler 4) (\<lambda>calls p. True) (start (newStreamHandler 4) 0)
     [Loop (Packet [1]), Loop (Packet [2]), Loop (Packet [3]), Loop (Packet [4]),
      Worker 0 2000000000 0, Worker 0 2000000000 0, Worker 0 2000000000 0, Worker 0 2000000000 0, Worker 0 2000000000 0,
      Worker 1 2000000000 0, Worker 1 2000000000 0, Worker 1 2000000000 0, Worker 1 2000000000 0, Worker 1 2000000000 0,
      Worker 2 2000000000 0, Worker 2 2000000000 0, Worker 2 2000000000 0, Worker 2 2000000000 0, Worker 2 2000000000 0,
      Worker 3 2000000000 0, Worker 3 2000000000 0, Worker 3 2000000000 0, Worker 3 2000000000 0, Worker 3 2000000000 0,
      Worker 0 2000000000 0, Worker 0 2000000000 0, Worker 0 2000000000 0,
      Worker 0 2000000000 0, Worker 0 2000000000 0, Worker 0 2000000000 0,
      Worker 0 2000000000 0, Worker 0 2000000000 0, Worker 0 2000000000 0,
      Worker 0 2000000000 0, Worker 0 2000000000 0, Worker 0 2000000000 0,
      Loop (Packet [5]), Worker 0 2000000000 0, Worker 0 2000000000 0, Worker 0 2000000000 0, Worker 0 2000000000 0, Worker 0 2000000000 0] = 5 \<and>
   stdout (run (newStreamHandler 4) (\<lambda>calls p. True) (start (newStreamHandler 4) 0)
     [Loop (Packet [1]), Loop (Packet [2]), Loop (Packet [3]), Loop (Packet [4]),
      Worker 0 2000000000 0, Worker 0 2000000000 0, Worker 0 2000000000 0, Worker 0 2000000000 0, Worker 0 2000000000 0,
      Worker 1 2000000000 0, Worker 1 2000000000 0, Worker 1 2000000000 0, Worker 1 2000000000 0, Worker 1 2000000000 0,
      Worker 2 2000000000 0, Worker 2 2000000000 0, Worker 2 2000000000 0, Worker 2 2000000000 0, Worker 2 2000000000 0,
      Worker 3 2000000000 0, Worker 3 2000000000 0, Worker 3 2000000000 0, Worker 3 2000000000 0, Worker 3 2000000000 0,
      Worker 0 2000000000 0, Worker 0 2000000000 0, Worker 0 2000000000 0,
      Worker 0 2000000000 0, Worker 0 2000000000 0, Worker 0 2000000000 0,
      Worker 0 2000000000 0, Worker 0 2000000000 0, Worker 0 2000000000 0,
      Worker 0 2000000000 0, Worker 0 2000000000 0, Worker 0 2000000000 0,
      Loop (Packet [5]), Worker 0 2000000000 0, Worker 0 2000000000 0, Worker 0 2000000000 0, Worker 0 2000000000 0, Worker 0 2000000000 0])
   = [ProcessedPerSec 1, ProcessedPerSec 2, ProcessedPerSec 3, ProcessedPerSec 4,
      ProcessedPerSec 1]"
  by (simp add: pipeline_eval)

section \<open>Closing the queue\<close>

text \<open>
  C8 (the queue is closed only after the producers are done). The dispatch loop closes
  \<^verbatim>\<open>h.processedChan\<close> when it returns, without waiting for the workers it started: a
  worker still in flight then offers to the closed channel, which panics.
\<close>

theorem close_with_worker_in_flight:
  "closed (processedChan (run (newStreamHandler 4) ok (start (newStreamHandler 4) 0)
     [Loop (Packet [1]), Loop ReadError])) \<and>
   goroutines (run (newStreamHandler 4) ok (start (newStreamHandler 4) 0)
     [Loop (Packet [1]), Loop ReadError]) = [Transform [1]] \<and>
   \<not> panicked (run (newStreamHandler 4) ok (start (newStreamHandler 4) 0)
     [Loop (Packet [1]), Loop ReadError]) \<and>
   panicked (run (newStreamHandler 4) ok (start (newStreamHandler 4) 0)
     [Loop (Packet [1]), Loop ReadError, Worker 0 0 0])"
  by (simp add: pipeline_eval)












end
